theory Spec2Isabelle
  imports Main
begin

section \<open>Event types, observers and handles\<close>

text \<open>
  An event type is an application-defined struct such as
  \<^verbatim>\<open>struct IntEvent { int Value; };\<close> of the example program: a name and a list of
  members (member type, member name). C++ class types are nominal: two structs with
  the same members and different names are different types, so the identity of an
  event type is its name.
\<close>

datatype event_type = Struct (type_name: string) (members: "(string \<times> string) list")

definition IntEvent :: event_type where
  "IntEvent = Struct ''IntEvent'' [(''int'', ''Value'')]"

definition FloatEvent :: event_type where
  "FloatEvent = Struct ''FloatEvent'' [(''float'', ''Value'')]"

definition DoubleEvent :: event_type where
  "DoubleEvent = Struct ''DoubleEvent'' [(''double'', ''Value'')]"

text \<open>
  A client observer is an object of a class derived from \<^verbatim>\<open>Fay::Observer<Args...>\<close>,
  which derives from \<^verbatim>\<open>IBaseObserver\<close> and from \<^verbatim>\<open>IObserver<A>\<close> for every \<open>A\<close> in
  \<^verbatim>\<open>Args\<close>. The manager stores \<^verbatim>\<open>IBaseObserver*\<close>: an address. The observers
  themselves belong to the application; the store maps the address of every live
  observer to its class.
\<close>

type_synonym ptr = nat

definition nullptr :: ptr where
  "nullptr = 0"

datatype observer_class = Observer (Args: "event_type list")

type_synonym store = "ptr \<rightharpoonup> observer_class"

text \<open>
  \<^verbatim>\<open>dynamic_cast<IObserver<T>*>(ptr)\<close>: a null pointer casts to null; a pointer to a
  live observer casts to its \<^verbatim>\<open>IObserver<T>\<close> base when the class has one and to null
  otherwise. A pointer to an observer that was destroyed has no defined behaviour
  in C++; the model returns that as a fault.
\<close>

datatype fault = DanglingHandle ptr

definition dynamic_cast_IObserver :: "store \<Rightarrow> event_type \<Rightarrow> ptr \<Rightarrow> fault + ptr option" where
  "dynamic_cast_IObserver objs T p =
     (if p = nullptr then Inr None
      else case objs p of
             None \<Rightarrow> Inl (DanglingHandle p)
           | Some (Observer args) \<Rightarrow>
               if type_name T \<in> set (map type_name args) then Inr (Some p) else Inr None)"

text \<open>
  The handlers (\<^verbatim>\<open>OnEvent\<close>) are application code; those of the example program print
  one line and return. The model records each invocation: the observer called, the
  type \<open>T\<close> of the \<^verbatim>\<open>IObserver<T>\<close> view it was called through, and the event passed.
  A handler is taken to return and not to call the manager that invoked it (on the
  default mutex such a call would not return).
\<close>

datatype 'v call = OnEvent (callee: ptr) (event_type_of: event_type) (event_of: 'v)

section \<open>The event manager\<close>

text \<open>
  \<^verbatim>\<open>BaseEventManager\<close> with the default container \<^verbatim>\<open>std::vector<IBaseObserver*>\<close>. Every
  operation holds \<^verbatim>\<open>mObserversMutex\<close> from its first statement to its return, so the
  operations of one manager are atomic and are modelled one after the other.
\<close>

record manager =
  mObservers :: "ptr list"

definition BaseEventManager :: manager where
  "BaseEventManager = \<lparr>mObservers = []\<rparr>"

definition push_back :: "'a list \<Rightarrow> 'a \<Rightarrow> 'a list" where
  "push_back xs x = xs @ [x]"

definition erase :: "'a list \<Rightarrow> nat \<Rightarrow> 'a list" where
  "erase xs it = take it xs @ drop (Suc it) xs"

definition Subscribe :: "manager \<Rightarrow> ptr \<Rightarrow> manager" where
  "Subscribe m observer = m\<lparr>mObservers := push_back (mObservers m) observer\<rparr>"

text \<open>
  The loop of \<^verbatim>\<open>Unsubscribe\<close>; the iterator \<open>it\<close> is an index that runs from
  \<^verbatim>\<open>begin()\<close> (0) up to \<^verbatim>\<open>end()\<close> (the length).
\<close>

function Unsubscribe_loop :: "ptr list \<Rightarrow> nat \<Rightarrow> ptr \<Rightarrow> ptr list" where
  "Unsubscribe_loop obs it observer =
     (if it < length obs
      then if obs ! it = observer then erase obs it
           else Unsubscribe_loop obs (Suc it) observer
      else obs)"
  by pat_completeness auto
termination
  by (relation "measure (\<lambda>(obs, it, observer). length obs - it)") auto

declare Unsubscribe_loop.simps [simp del]

definition Unsubscribe :: "manager \<Rightarrow> ptr \<Rightarrow> manager" where
  "Unsubscribe m observer = m\<lparr>mObservers := Unsubscribe_loop (mObservers m) 0 observer\<rparr>"

text \<open>
  \<^verbatim>\<open>Dispatch(const T& event)\<close>: the range-for loop over \<^verbatim>\<open>mObservers\<close>; \<open>out\<close> collects
  the handler invocations made so far.
\<close>

fun Dispatch_loop ::
  "store \<Rightarrow> event_type \<Rightarrow> 'v \<Rightarrow> ptr list \<Rightarrow> 'v call list \<Rightarrow> fault + 'v call list" where
  "Dispatch_loop objs T event [] out = Inr out"
| "Dispatch_loop objs T event (p # rest) out =
     (case dynamic_cast_IObserver objs T p of
        Inl f \<Rightarrow> Inl f
      | Inr None \<Rightarrow> Dispatch_loop objs T event rest out
      | Inr (Some observer) \<Rightarrow>
          Dispatch_loop objs T event rest (out @ [OnEvent observer T event]))"

definition Dispatch ::
  "store \<Rightarrow> manager \<Rightarrow> event_type \<Rightarrow> 'v \<Rightarrow> fault + manager \<times> 'v call list" where
  "Dispatch objs m T event =
     (case Dispatch_loop objs T event (mObservers m) [] of
        Inl f \<Rightarrow> Inl f
      | Inr out \<Rightarrow> Inr (m, out))"

text \<open>
  The capability set of an observer is the set of event types its class declares
  (the \<^verbatim>\<open>Args\<close> of \<^verbatim>\<open>Observer<Args...>\<close>), read from the store and not from the cast.
  A handle is usable when it is null or points to a live observer.
\<close>

definition capability_set :: "store \<Rightarrow> ptr \<Rightarrow> string set" where
  "capability_set objs p =
     (case objs p of None \<Rightarrow> {} | Some c \<Rightarrow> set (map type_name (Args c)))"

definition capable :: "store \<Rightarrow> event_type \<Rightarrow> ptr \<Rightarrow> bool" where
  "capable objs T p = (p \<noteq> nullptr \<and> type_name T \<in> capability_set objs p)"

definition live :: "store \<Rightarrow> ptr list \<Rightarrow> bool" where
  "live objs ps = list_all (\<lambda>p. p = nullptr \<or> objs p \<noteq> None) ps"

definition invocations :: "ptr \<Rightarrow> 'v call list \<Rightarrow> nat" where
  "invocations h out = length (filter (\<lambda>c. callee c = h) out)"

text \<open>\<open>a\<close> occurs in \<open>xs\<close> at a position before an occurrence of \<open>b\<close>.\<close>

definition precedes :: "'a \<Rightarrow> 'a \<Rightarrow> 'a list \<Rightarrow> bool" where
  "precedes a b xs = (\<exists>l1 l2 l3. xs = l1 @ a # l2 @ b # l3)"

subsection \<open>Sequences of calls on one manager\<close>

text \<open>
  A client program is a sequence of calls. \<open>run\<close> performs them in order and returns
  the final manager with, for every \<^verbatim>\<open>Dispatch\<close> call in order, the handler
  invocations that call made.
\<close>

datatype 'v op = SubscribeOp ptr | UnsubscribeOp ptr | DispatchOp event_type 'v

fun run :: "store \<Rightarrow> manager \<Rightarrow> 'v op list \<Rightarrow> fault + manager \<times> 'v call list list" where
  "run objs m [] = Inr (m, [])"
| "run objs m (SubscribeOp p # ops) = run objs (Subscribe m p) ops"
| "run objs m (UnsubscribeOp p # ops) = run objs (Unsubscribe m p) ops"
| "run objs m (DispatchOp T e # ops) =
     (case Dispatch objs m T e of
        Inl f \<Rightarrow> Inl f
      | Inr (m', out) \<Rightarrow>
          (case run objs m' ops of
             Inl f \<Rightarrow> Inl f
           | Inr (m'', outs) \<Rightarrow> Inr (m'', out # outs)))"

text \<open>
  What the history of calls alone says about a handle \<open>h\<close>: the number of its
  subscriptions still outstanding (each \<^verbatim>\<open>Subscribe(h)\<close> adds one, each
  \<^verbatim>\<open>Unsubscribe(h)\<close> takes one away when there is one), and the handles the history
  subscribes.
\<close>

fun outstanding :: "ptr \<Rightarrow> nat \<Rightarrow> 'v op list \<Rightarrow> nat" where
  "outstanding h n [] = n"
| "outstanding h n (SubscribeOp p # ops) = outstanding h (if p = h then Suc n else n) ops"
| "outstanding h n (UnsubscribeOp p # ops) = outstanding h (if p = h then n - 1 else n) ops"
| "outstanding h n (DispatchOp T e # ops) = outstanding h n ops"

fun subscribed_handles :: "'v op list \<Rightarrow> ptr list" where
  "subscribed_handles [] = []"
| "subscribed_handles (SubscribeOp p # ops) = p # subscribed_handles ops"
| "subscribed_handles (UnsubscribeOp p # ops) = subscribed_handles ops"
| "subscribed_handles (DispatchOp T e # ops) = subscribed_handles ops"

fun unsubscribed_handles :: "'v op list \<Rightarrow> ptr list" where
  "unsubscribed_handles [] = []"
| "unsubscribed_handles (SubscribeOp p # ops) = unsubscribed_handles ops"
| "unsubscribed_handles (UnsubscribeOp p # ops) = p # unsubscribed_handles ops"
| "unsubscribed_handles (DispatchOp T e # ops) = unsubscribed_handles ops"

subsection \<open>The two overloads of Dispatch\<close>

text \<open>
  \<^verbatim>\<open>Dispatch\<close> has two overloads, \<^verbatim>\<open>Dispatch(const T&)\<close> and \<^verbatim>\<open>Dispatch(T&&)\<close>, and the
  body of the second is the call \<^verbatim>\<open>Dispatch((const T&) event)\<close>, which overload
  resolution resolves again. An argument expression has a value category, a
  const qualification, its class type \<open>U\<close> and its value.

  In \<^verbatim>\<open>Dispatch(T&&)\<close> the parameter is a forwarding reference: for an lvalue
  argument \<open>T\<close> is deduced as \<^verbatim>\<open>U&\<close> or \<^verbatim>\<open>const U&\<close>, for an rvalue as \<^verbatim>\<open>U\<close> or
  \<^verbatim>\<open>const U\<close>. Overload resolution:
  \<^item> const lvalue: both overloads take \<^verbatim>\<open>const U&\<close>; the more specialised template
    \<^verbatim>\<open>Dispatch(const T&)\<close> is chosen;
  \<^item> non-const lvalue: \<^verbatim>\<open>Dispatch(T&&)\<close> with \<^verbatim>\<open>T = U&\<close> binds \<^verbatim>\<open>U&\<close>, a better match
    than \<^verbatim>\<open>const U&\<close>;
  \<^item> rvalue: \<^verbatim>\<open>Dispatch(T&&)\<close> binds an rvalue reference, a better match than
    \<^verbatim>\<open>const U&\<close>.

  The cast \<^verbatim>\<open>(const T&) event\<close> yields an lvalue. For \<^verbatim>\<open>T = U\<close> or \<^verbatim>\<open>T = const U\<close>
  its type is \<^verbatim>\<open>const U\<close>. For a reference \<^verbatim>\<open>T = U&\<close> the \<^verbatim>\<open>const\<close> applies to the
  reference and is ignored, and \<^verbatim>\<open>U& &\<close> collapses to \<^verbatim>\<open>U&\<close>: the type stays \<^verbatim>\<open>U\<close>.
\<close>

datatype value_category = Lvalue | Rvalue

datatype 'v expr =
  Expr (category: value_category) (is_const: bool) (static_type: event_type) (val: 'v)

datatype template_arg =
  TArg (is_lvalue_ref: bool) (const_qualified: bool) (referred: event_type)

datatype overload = Dispatch_const_ref event_type | Dispatch_forwarding template_arg

fun overload_resolution :: "'v expr \<Rightarrow> overload" where
  "overload_resolution (Expr Lvalue True U v) = Dispatch_const_ref U"
| "overload_resolution (Expr Lvalue False U v) = Dispatch_forwarding (TArg True False U)"
| "overload_resolution (Expr Rvalue c U v) = Dispatch_forwarding (TArg False c U)"

fun cast_const_T_ref :: "template_arg \<Rightarrow> 'v \<Rightarrow> 'v expr" where
  "cast_const_T_ref (TArg True c U) v = Expr Lvalue c U v"
| "cast_const_T_ref (TArg False c U) v = Expr Lvalue True U v"

text \<open>
  \<^verbatim>\<open>Dispatch(T&& event)\<close>. The call in its body may select the same overload again,
  so the function is partial: \<open>None\<close> is a call that never returns.
\<close>

partial_function (option) Dispatch_rvalue ::
  "store \<Rightarrow> manager \<Rightarrow> template_arg \<Rightarrow> 'v \<Rightarrow> (fault + manager \<times> 'v call list) option" where
  "Dispatch_rvalue objs m T event =
     (case overload_resolution (cast_const_T_ref T event) of
        Dispatch_const_ref U \<Rightarrow>
          Some (Dispatch objs m U (val (cast_const_T_ref T event)))
      | Dispatch_forwarding T' \<Rightarrow>
          Dispatch_rvalue objs m T' (val (cast_const_T_ref T event)))"

text \<open>A call \<^verbatim>\<open>manager.Dispatch(e)\<close> written by a client.\<close>

definition Dispatch_call ::
  "store \<Rightarrow> manager \<Rightarrow> 'v expr \<Rightarrow> (fault + manager \<times> 'v call list) option" where
  "Dispatch_call objs m e =
     (case overload_resolution e of
        Dispatch_const_ref U \<Rightarrow> Some (Dispatch objs m U (val e))
      | Dispatch_forwarding T \<Rightarrow> Dispatch_rvalue objs m T (val e))"

subsection \<open>The example program\<close>

text \<open>
  \<^verbatim>\<open>struct MyObserver : Fay::Observer<IntEvent, FloatEvent>\<close> and the object
  \<^verbatim>\<open>MyObserver observer;\<close> of \<^verbatim>\<open>main\<close>, at some non-null address. \<open>OtherIntEvent\<close> is
  a further struct with the members of \<open>IntEvent\<close>.
\<close>

definition MyObserver :: observer_class where
  "MyObserver = Observer [IntEvent, FloatEvent]"

definition observer :: ptr where
  "observer = 1"

definition example_store :: store where
  "example_store = [observer \<mapsto> MyObserver, 2 \<mapsto> Observer [IntEvent]]"

definition OtherIntEvent :: event_type where
  "OtherIntEvent = Struct ''OtherIntEvent'' [(''int'', ''Value'')]"

section \<open>Subscribe and Unsubscribe\<close>

lemma Unsubscribe_loop_remove1:
  "it \<le> length obs \<Longrightarrow>
   Unsubscribe_loop obs it h = take it obs @ remove1 h (drop it obs)"
proof (induction obs it h rule: Unsubscribe_loop.induct)
  case (1 obs it observer)
  show ?case
  proof (cases "it < length obs")
    case False
    with "1.prems" have "it = length obs" by simp
    then show ?thesis
      by (subst Unsubscribe_loop.simps) simp
  next
    case True
    then have d: "drop it obs = obs ! it # drop (Suc it) obs"
      by (simp add: Cons_nth_drop_Suc)
    show ?thesis
    proof (cases "obs ! it = observer")
      case True
      with \<open>it < length obs\<close> d show ?thesis
        by (simp add: Unsubscribe_loop.simps [of obs it observer] erase_def)
    next
      case False
      with \<open>it < length obs\<close> have
        "Unsubscribe_loop obs it observer = Unsubscribe_loop obs (Suc it) observer"
        by (simp add: Unsubscribe_loop.simps [of obs it observer])
      also have "\<dots> = take (Suc it) obs @ remove1 observer (drop (Suc it) obs)"
        using "1.IH" [OF \<open>it < length obs\<close> False] \<open>it < length obs\<close> by simp
      also have "\<dots> = take it obs @ remove1 observer (drop it obs)"
        using False \<open>it < length obs\<close> d by (simp add: take_Suc_conv_app_nth)
      finally show ?thesis .
    qed
  qed
qed

lemma mObservers_Unsubscribe:
  "mObservers (Unsubscribe m h) = remove1 h (mObservers m)"
  by (simp add: Unsubscribe_def Unsubscribe_loop_remove1)

lemma mObservers_Subscribe:
  "mObservers (Subscribe m h) = mObservers m @ [h]"
  by (simp add: Subscribe_def push_back_def)

lemma remove1_first_split:
  "h \<notin> set xs \<Longrightarrow> remove1 h (xs @ h # ys) = xs @ ys"
  by (induction xs) auto

lemma manager_eq_iff:
  "(m = (m' :: manager)) = (mObservers m = mObservers m')"
  by (cases m, cases m') simp

lemma Unsubscribe_absent:
  "h \<notin> set (mObservers m) \<Longrightarrow> Unsubscribe m h = m"
  by (simp add: manager_eq_iff mObservers_Unsubscribe remove1_idem)

lemma Unsubscribe_first:
  "mObservers m = xs @ h # ys \<Longrightarrow> h \<notin> set xs \<Longrightarrow> mObservers (Unsubscribe m h) = xs @ ys"
  by (simp add: mObservers_Unsubscribe remove1_first_split)

text \<open>
  When \<open>h\<close> is stored, \<^verbatim>\<open>Subscribe(h)\<close> followed by \<^verbatim>\<open>Unsubscribe(h)\<close> gives the manager
  back exactly when every entry after the first occurrence of \<open>h\<close> is \<open>h\<close> too.
\<close>

lemma snoc_eq_Cons_iff: "(ys @ [h] = h # ys) = (\<forall>y \<in> set ys. y = h)"
  by (induction ys) auto

lemma roundtrip_identity_iff:
  assumes "mObservers m = xs @ h # ys" and "h \<notin> set xs"
  shows "(Unsubscribe (Subscribe m h) h = m) = (\<forall>y \<in> set ys. y = h)"
proof -
  from assms have "mObservers (Subscribe m h) = xs @ h # (ys @ [h])"
    by (simp add: mObservers_Subscribe)
  with assms(2) have "mObservers (Unsubscribe (Subscribe m h) h) = xs @ ys @ [h]"
    by (simp add: Unsubscribe_first)
  with assms(1) show ?thesis
    by (simp add: manager_eq_iff snoc_eq_Cons_iff)
qed

text \<open>
  Claim C4. \<^verbatim>\<open>Subscribe(h)\<close> appends \<open>h\<close> at the end of the subscriber collection: the
  collection grows by one entry, the entries stored before keep their places, the
  last entry is \<open>h\<close>, and \<open>h\<close> is stored once more than before whether or not it was
  already present (no deduplication). \<open>Subscribe\<close> has no error result: it accepts
  every handle.
\<close>

theorem Subscribe_appends:
  "mObservers (Subscribe m h) = mObservers m @ [h] \<and>
   length (mObservers (Subscribe m h)) = Suc (length (mObservers m)) \<and>
   take (length (mObservers m)) (mObservers (Subscribe m h)) = mObservers m \<and>
   last (mObservers (Subscribe m h)) = h \<and>
   count_list (mObservers (Subscribe m h)) h = Suc (count_list (mObservers m) h)"
  by (simp add: mObservers_Subscribe)

text \<open>Subscribing a handle that is already stored appends it again.\<close>

theorem Subscribe_appends_witness:
  "mObservers (Subscribe \<lparr>mObservers = [1, 2]\<rparr> 1) = [1, 2, 1]"
  using Subscribe_appends [of "\<lparr>mObservers = [1, 2]\<rparr>" 1] by simp

text \<open>
  Claim C3. \<^verbatim>\<open>Unsubscribe(h)\<close> removes exactly the first entry equal to \<open>h\<close>: when
  \<open>h\<close> is stored, the collection splits at the first occurrence of \<open>h\<close> as
  \<open>xs @ h # ys\<close> and becomes \<open>xs @ ys\<close>, so every other entry, later duplicates of \<open>h\<close>
  included, stays in its relative order; when \<open>h\<close> is not stored the manager is
  unchanged.
\<close>

theorem Unsubscribe_removes_first_match:
  "(h \<notin> set (mObservers m) \<longrightarrow> Unsubscribe m h = m) \<and>
   (h \<in> set (mObservers m) \<longrightarrow>
      (\<exists>xs ys. mObservers m = xs @ h # ys \<and> h \<notin> set xs)) \<and>
   (\<forall>xs ys. mObservers m = xs @ h # ys \<and> h \<notin> set xs \<longrightarrow>
      mObservers (Unsubscribe m h) = xs @ ys)"
proof (intro conjI impI allI)
  assume "h \<notin> set (mObservers m)"
  then show "Unsubscribe m h = m" by (rule Unsubscribe_absent)
next
  assume "h \<in> set (mObservers m)"
  then show "\<exists>xs ys. mObservers m = xs @ h # ys \<and> h \<notin> set xs"
    by (rule split_list_first)
next
  fix xs ys
  assume "mObservers m = xs @ h # ys \<and> h \<notin> set xs"
  then show "mObservers (Unsubscribe m h) = xs @ ys"
    by (simp add: Unsubscribe_first)
qed

text \<open>With a duplicate of the handle stored, only the earliest entry goes.\<close>

theorem Unsubscribe_removes_first_match_witness:
  "mObservers (Unsubscribe \<lparr>mObservers = [1, 2, 1, 3]\<rparr> 1) = [2, 1, 3] \<and>
   Unsubscribe \<lparr>mObservers = [1, 2, 1, 3]\<rparr> 5 = \<lparr>mObservers = [1, 2, 1, 3]\<rparr>"
proof -
  let ?m = "\<lparr>mObservers = [1, 2, 1, 3]\<rparr>"
  have split: "mObservers ?m = [] @ 1 # [2, 1, 3] \<and> (1::nat) \<notin> set []" by simp
  have absent: "(5::nat) \<notin> set (mObservers ?m)" by simp
  from Unsubscribe_removes_first_match [of 1 ?m] split
  have "mObservers (Unsubscribe ?m 1) = [] @ [2, 1, 3]" by blast
  moreover from Unsubscribe_removes_first_match [of 5 ?m] absent
  have "Unsubscribe ?m 5 = ?m" by blast
  ultimately show ?thesis by simp
qed

text \<open>
  Claim C7. \<^verbatim>\<open>Unsubscribe(h)\<close> of a handle that is not in the subscriber collection
  leaves the manager exactly as it was: same entries, same order. \<open>Unsubscribe\<close> has
  no error result.
\<close>

theorem Unsubscribe_absent_noop:
  "h \<notin> set (mObservers m) \<Longrightarrow>
   Unsubscribe m h = m \<and> mObservers (Unsubscribe m h) = mObservers m"
  by (simp add: Unsubscribe_absent)

theorem Unsubscribe_absent_noop_witness:
  "(3::nat) \<notin> set (mObservers \<lparr>mObservers = [1, 2]\<rparr>) \<and>
   Unsubscribe \<lparr>mObservers = [1, 2]\<rparr> 3 = \<lparr>mObservers = [1, 2]\<rparr>"
proof -
  have h: "(3::nat) \<notin> set (mObservers \<lparr>mObservers = [1, 2]\<rparr>)" by simp
  from Unsubscribe_absent_noop [OF h] h show ?thesis by simp
qed

text \<open>
  Claim C9. \<^verbatim>\<open>Subscribe(h)\<close> followed at once by \<^verbatim>\<open>Unsubscribe(h)\<close> gives back the
  manager it started from when \<open>h\<close> was not stored. When \<open>h\<close> was stored, the pair
  removes its first occurrence and leaves the new entry at the end; there are
  managers for which this differs from the starting one, so the condition cannot
  be dropped.
\<close>

theorem Subscribe_Unsubscribe_roundtrip:
  "(h \<notin> set (mObservers m) \<longrightarrow> Unsubscribe (Subscribe m h) h = m) \<and>
   (\<forall>xs ys. mObservers m = xs @ h # ys \<and> h \<notin> set xs \<longrightarrow>
      mObservers (Unsubscribe (Subscribe m h) h) = xs @ ys @ [h]) \<and>
   (\<exists>m' h'. h' \<in> set (mObservers m') \<and> Unsubscribe (Subscribe m' h') h' \<noteq> m')"
proof (intro conjI impI allI)
  assume "h \<notin> set (mObservers m)"
  then have "mObservers (Subscribe m h) = mObservers m @ h # []" "h \<notin> set (mObservers m)"
    by (simp_all add: mObservers_Subscribe)
  then have "mObservers (Unsubscribe (Subscribe m h) h) = mObservers m @ []"
    by (rule Unsubscribe_first)
  then show "Unsubscribe (Subscribe m h) h = m"
    by (simp add: manager_eq_iff)
next
  fix xs ys
  assume a: "mObservers m = xs @ h # ys \<and> h \<notin> set xs"
  then have "mObservers (Subscribe m h) = xs @ h # (ys @ [h])"
    by (simp add: mObservers_Subscribe)
  with a show "mObservers (Unsubscribe (Subscribe m h) h) = xs @ ys @ [h]"
    by (simp add: Unsubscribe_first)
next
  let ?m = "\<lparr>mObservers = [1, 2]\<rparr>"
  have "mObservers (Unsubscribe (Subscribe ?m 1) 1) = [2, 1]"
    by (simp add: mObservers_Unsubscribe mObservers_Subscribe)
  then have "(1::nat) \<in> set (mObservers ?m) \<and> Unsubscribe (Subscribe ?m 1) 1 \<noteq> ?m"
    by (simp add: manager_eq_iff)
  then show "\<exists>m' h'. h' \<in> set (mObservers m') \<and> Unsubscribe (Subscribe m' h') h' \<noteq> m'"
    by blast
qed

theorem Subscribe_Unsubscribe_roundtrip_witness:
  "Unsubscribe (Subscribe \<lparr>mObservers = [1, 2]\<rparr> 3) 3 = \<lparr>mObservers = [1, 2]\<rparr> \<and>
   mObservers (Unsubscribe (Subscribe \<lparr>mObservers = [1, 2]\<rparr> 1) 1) = [2, 1]"
proof -
  let ?m = "\<lparr>mObservers = [1, 2]\<rparr>"
  have absent: "(3::nat) \<notin> set (mObservers ?m)" by simp
  have split: "mObservers ?m = [] @ 1 # [2] \<and> (1::nat) \<notin> set []" by simp
  from Subscribe_Unsubscribe_roundtrip [of 3 ?m] absent
  have "Unsubscribe (Subscribe ?m 3) 3 = ?m" by blast
  moreover from Subscribe_Unsubscribe_roundtrip [of 1 ?m] split
  have "mObservers (Unsubscribe (Subscribe ?m 1) 1) = [] @ [2] @ [1]" by blast
  ultimately show ?thesis by simp
qed

section \<open>Dispatch\<close>

lemma dynamic_cast_live:
  "p = nullptr \<or> objs p \<noteq> None \<Longrightarrow>
   dynamic_cast_IObserver objs T p = Inr (if capable objs T p then Some p else None)"
  by (auto simp: dynamic_cast_IObserver_def capable_def capability_set_def
      split: option.splits observer_class.splits)

lemma Dispatch_loop_live:
  "live objs ps \<Longrightarrow>
   Dispatch_loop objs T e ps out =
     Inr (out @ map (\<lambda>p. OnEvent p T e) (filter (capable objs T) ps))"
  by (induction ps arbitrary: out) (simp_all add: live_def dynamic_cast_live)

lemma Dispatch_live:
  "live objs (mObservers m) \<Longrightarrow>
   Dispatch objs m T e =
     Inr (m, map (\<lambda>p. OnEvent p T e) (filter (capable objs T) (mObservers m)))"
  by (simp add: Dispatch_def Dispatch_loop_live)

lemma Dispatch_same_manager:
  "Dispatch objs m T e = Inr (m', out) \<Longrightarrow> m' = m"
  by (auto simp: Dispatch_def split: sum.splits)

lemma invocations_map_filter:
  "invocations h (map (\<lambda>p. OnEvent p T e) (filter P ps)) =
     (if P h then count_list ps h else 0)"
  by (induction ps) (auto simp: invocations_def)

lemma capable_live: "capable objs T p \<Longrightarrow> objs p \<noteq> None"
  by (auto simp: capable_def capability_set_def split: option.splits)

lemma live_append: "live objs (xs @ ys) = (live objs xs \<and> live objs ys)"
  by (simp add: live_def)

lemma live_Cons: "live objs (p # ps) = ((p = nullptr \<or> objs p \<noteq> None) \<and> live objs ps)"
  by (simp add: live_def)

lemma live_Nil: "live objs []"
  by (simp add: live_def)

lemma live_remove1: "live objs ps \<Longrightarrow> live objs (remove1 p ps)"
  using set_remove1_subset [of p ps] by (auto simp: live_def list_all_iff)

section \<open>Runs\<close>

lemma subscribed_handles_append:
  "subscribed_handles (ops1 @ ops2) = subscribed_handles ops1 @ subscribed_handles ops2"
  by (induction ops1 rule: subscribed_handles.induct) simp_all

lemma unsubscribed_handles_append:
  "unsubscribed_handles (ops1 @ ops2) = unsubscribed_handles ops1 @ unsubscribed_handles ops2"
  by (induction ops1 rule: unsubscribed_handles.induct) simp_all

lemma outstanding_append:
  "outstanding h n (ops1 @ ops2) = outstanding h (outstanding h n ops1) ops2"
  by (induction h n ops1 rule: outstanding.induct) simp_all

lemma outstanding_untouched:
  "h \<notin> set (subscribed_handles ops) \<Longrightarrow> h \<notin> set (unsubscribed_handles ops) \<Longrightarrow>
   outstanding h n ops = n"
  by (induction h n ops rule: outstanding.induct) auto

lemma count_list_snoc:
  "count_list (xs @ [p]) h = (if p = h then Suc (count_list xs h) else count_list xs h)"
  by (induction xs) auto

lemma count_list_remove1:
  "count_list (remove1 p xs) h = (if p = h then count_list xs h - 1 else count_list xs h)"
  by (induction xs) auto

lemma count_list_Subscribe:
  "count_list (mObservers (Subscribe m p)) h =
     (if p = h then Suc (count_list (mObservers m) h) else count_list (mObservers m) h)"
  by (simp add: mObservers_Subscribe)

lemma count_list_Unsubscribe:
  "count_list (mObservers (Unsubscribe m p)) h =
     (if p = h then count_list (mObservers m) h - 1 else count_list (mObservers m) h)"
  by (simp add: mObservers_Unsubscribe count_list_remove1)

text \<open>
  A run over live handles returns; the final collection stores every handle as often
  as the history says, and the run ends with a usable collection.
\<close>

lemma run_live:
  "live objs (mObservers m) \<Longrightarrow> live objs (subscribed_handles ops) \<Longrightarrow>
   \<exists>m' outs. run objs m ops = Inr (m', outs) \<and> live objs (mObservers m') \<and>
     (\<forall>h. count_list (mObservers m') h = outstanding h (count_list (mObservers m) h) ops) \<and>
     (\<forall>c \<in> set (concat outs). capable objs (event_type_of c) (callee c))"
proof (induction objs m ops rule: run.induct)
  case (1 objs m)
  then show ?case by simp
next
  case (2 objs m p ops)
  from "2.prems" have "live objs (mObservers (Subscribe m p))" "live objs (subscribed_handles ops)"
    by (simp_all add: mObservers_Subscribe live_append live_Cons live_Nil)
  from "2.IH" [OF this] show ?case
    by (simp only: run.simps outstanding.simps count_list_Subscribe)
next
  case (3 objs m p ops)
  from "3.prems" have "live objs (mObservers (Unsubscribe m p))" "live objs (subscribed_handles ops)"
    by (simp_all add: mObservers_Unsubscribe live_remove1)
  from "3.IH" [OF this] show ?case
    by (simp only: run.simps outstanding.simps count_list_Unsubscribe)
next
  case (4 objs m T e ops)
  let ?out = "map (\<lambda>p. OnEvent p T e) (filter (capable objs T) (mObservers m))"
  from "4.prems" have d: "Dispatch objs m T e = Inr (m, ?out)"
    by (simp add: Dispatch_live)
  from "4.prems" have "live objs (mObservers m)" "live objs (subscribed_handles ops)"
    by simp_all
  from "4.IH" [OF d refl this] obtain m' outs where
    r: "run objs m ops = Inr (m', outs)" and l: "live objs (mObservers m')" and
    c: "\<forall>h. count_list (mObservers m') h = outstanding h (count_list (mObservers m) h) ops" and
    k: "\<forall>c \<in> set (concat outs). capable objs (event_type_of c) (callee c)"
    by blast
  have "\<forall>c \<in> set ?out. capable objs (event_type_of c) (callee c)"
    by auto
  with d r l c k show ?case by auto
qed

lemma run_append:
  "run objs m (ops1 @ ops2) =
     (case run objs m ops1 of
        Inl f \<Rightarrow> Inl f
      | Inr (m1, outs1) \<Rightarrow>
          (case run objs m1 ops2 of
             Inl f \<Rightarrow> Inl f
           | Inr (m2, outs2) \<Rightarrow> Inr (m2, outs1 @ outs2)))"
  by (induction objs m ops1 rule: run.induct) (auto split: sum.splits prod.splits)

lemma run_then_Dispatch:
  assumes "live objs (mObservers m)" and "live objs (subscribed_handles ops)"
  shows "\<exists>m' outs. run objs m (ops @ [DispatchOp T e]) =
       Inr (m', outs @ [map (\<lambda>p. OnEvent p T e) (filter (capable objs T) (mObservers m'))]) \<and>
     run objs m ops = Inr (m', outs) \<and>
     live objs (mObservers m') \<and>
     (\<forall>h. count_list (mObservers m') h = outstanding h (count_list (mObservers m) h) ops) \<and>
     (\<forall>c \<in> set (concat outs). capable objs (event_type_of c) (callee c))"
proof -
  from run_live [OF assms] obtain m' outs where
    r: "run objs m ops = Inr (m', outs)" and l: "live objs (mObservers m')" and
    c: "\<forall>h. count_list (mObservers m') h = outstanding h (count_list (mObservers m) h) ops" and
    k: "\<forall>c \<in> set (concat outs). capable objs (event_type_of c) (callee c)"
    by blast
  from r l have "run objs m (ops @ [DispatchOp T e]) =
       Inr (m', outs @ [map (\<lambda>p. OnEvent p T e) (filter (capable objs T) (mObservers m'))])"
    by (simp add: run_append Dispatch_live)
  with r l c k show ?thesis by blast
qed


section \<open>Claims about Dispatch\<close>

lemma example_live: "live example_store [observer, 2, nullptr]"
  by (simp add: live_def example_store_def observer_def nullptr_def)

lemma example_capable:
  "capable example_store IntEvent observer"
  "capable example_store FloatEvent observer"
  "\<not> capable example_store DoubleEvent observer"
  "\<not> capable example_store OtherIntEvent observer"
  "capable example_store IntEvent 2"
  "\<not> capable example_store FloatEvent 2"
  "\<not> capable example_store T nullptr"
  by (simp_all add: capable_def capability_set_def example_store_def observer_def nullptr_def
      MyObserver_def IntEvent_def FloatEvent_def DoubleEvent_def OtherIntEvent_def)

text \<open>
  Claim C8. \<^verbatim>\<open>Dispatch(event)\<close> leaves the manager as it was, for every event type and
  event value: whenever it returns, the manager after the call is the manager before
  it, and it does return when every stored handle is null or points to a live
  observer. The subscriber collection is the only field of the manager, so nothing
  of the event is kept.
\<close>

theorem Dispatch_leaves_manager_unchanged:
  "(\<forall>m' out. Dispatch objs m T e = Inr (m', out) \<longrightarrow> m' = m) \<and>
   (live objs (mObservers m) \<longrightarrow> (\<exists>out. Dispatch objs m T e = Inr (m, out)))"
  by (auto simp: Dispatch_live dest: Dispatch_same_manager)

theorem Dispatch_leaves_manager_unchanged_witness:
  "\<exists>out. Dispatch example_store \<lparr>mObservers = [observer, 2]\<rparr> IntEvent ''1'' =
     Inr (\<lparr>mObservers = [observer, 2]\<rparr>, out)"
proof -
  have "live example_store (mObservers \<lparr>mObservers = [observer, 2]\<rparr>)"
    using example_live by (simp add: live_def)
  with Dispatch_leaves_manager_unchanged
    [of example_store "\<lparr>mObservers = [observer, 2]\<rparr>" IntEvent "''1''"]
  show ?thesis by blast
qed

lemma count_calls_map_filter:
  "count_list (map (\<lambda>p. OnEvent p T e) (filter P ps)) (OnEvent h T e) =
     (if P h then count_list ps h else 0)"
  by (induction ps) auto

text \<open>
  Claim C1, as amended. For every sequence of \<^verbatim>\<open>Subscribe\<close>, \<^verbatim>\<open>Unsubscribe\<close> and
  \<^verbatim>\<open>Dispatch\<close> calls on one manager, over handles that are null or point to live
  observers, a following \<^verbatim>\<open>Dispatch(event: T)\<close> returns and makes the call
  \<^verbatim>\<open>OnEvent(event)\<close> through \<^verbatim>\<open>IObserver<T>\<close> on every handler capable of \<open>T\<close> once for each
  of its subscriptions outstanding at that time, which is the number of times its
  handle is stored: exactly once when it is subscribed once. These are all the
  calls it makes: every call is through \<^verbatim>\<open>IObserver<T>\<close>, with the event dispatched,
  on a handler capable of \<open>T\<close>; the calls are those of the capable entries of the
  collection, in order. A handler that is not capable of \<open>T\<close> is not invoked, and in
  the whole run no handler is invoked for an event type outside its capability set.
\<close>

theorem Dispatch_once_per_subscription:
  assumes "live objs (mObservers m0)" and "live objs (subscribed_handles ops)"
  shows "\<exists>m outs out.
      run objs m0 (ops @ [DispatchOp T e]) = Inr (m, outs @ [out]) \<and>
      out = map (\<lambda>p. OnEvent p T e) (filter (capable objs T) (mObservers m)) \<and>
      (\<forall>h. count_list (mObservers m) h = outstanding h (count_list (mObservers m0) h) ops) \<and>
      (\<forall>h. count_list out (OnEvent h T e) =
         (if capable objs T h then outstanding h (count_list (mObservers m0) h) ops else 0)) \<and>
      (\<forall>h. invocations h out =
         (if capable objs T h then outstanding h (count_list (mObservers m0) h) ops else 0)) \<and>
      (\<forall>c \<in> set out. c = OnEvent (callee c) T e \<and> capable objs T (callee c)) \<and>
      (\<forall>c \<in> set (concat (outs @ [out])). capable objs (event_type_of c) (callee c))"
proof -
  let ?out = "\<lambda>m. map (\<lambda>p. OnEvent p T e) (filter (capable objs T) (mObservers m))"
  from run_then_Dispatch [OF assms, of T e] obtain m outs where
    r: "run objs m0 (ops @ [DispatchOp T e]) = Inr (m, outs @ [?out m])" and
    c: "\<forall>h. count_list (mObservers m) h = outstanding h (count_list (mObservers m0) h) ops" and
    k: "\<forall>c \<in> set (concat outs). capable objs (event_type_of c) (callee c)"
    by blast
  from c have n: "\<forall>h. count_list (?out m) (OnEvent h T e) =
      (if capable objs T h then outstanding h (count_list (mObservers m0) h) ops else 0)"
    by (simp add: count_calls_map_filter)
  from c have i: "\<forall>h. invocations h (?out m) =
      (if capable objs T h then outstanding h (count_list (mObservers m0) h) ops else 0)"
    by (simp add: invocations_map_filter)
  have s: "\<forall>c \<in> set (?out m). c = OnEvent (callee c) T e \<and> capable objs T (callee c)"
    by auto
  from k have a: "\<forall>c \<in> set (concat (outs @ [?out m])). capable objs (event_type_of c) (callee c)"
    by auto
  show ?thesis
  proof (intro exI conjI)
    show "run objs m0 (ops @ [DispatchOp T e]) = Inr (m, outs @ [?out m])" by (rule r)
    show "?out m = map (\<lambda>p. OnEvent p T e) (filter (capable objs T) (mObservers m))" by (rule refl)
  qed (rule c n i s a)+
qed

theorem Dispatch_once_per_subscription_witness:
  "\<exists>m outs out.
      run example_store BaseEventManager
        ([SubscribeOp observer, SubscribeOp 2, DispatchOp IntEvent ''1'',
          UnsubscribeOp 2] @ [DispatchOp FloatEvent ''2.34f'']) = Inr (m, outs @ [out]) \<and>
      count_list out (OnEvent observer FloatEvent ''2.34f'') = 1 \<and>
      invocations observer out = 1 \<and> invocations 2 out = 0"
proof -
  let ?ops = "[SubscribeOp observer, SubscribeOp 2, DispatchOp IntEvent ''1'',
          UnsubscribeOp 2]"
  have a: "live example_store (mObservers BaseEventManager)"
    by (simp add: BaseEventManager_def live_def)
  have b: "live example_store (subscribed_handles ?ops)"
    using example_live by (simp add: live_def)
  from Dispatch_once_per_subscription [OF a b, of FloatEvent "''2.34f''"] obtain m outs out where
    r: "run example_store BaseEventManager (?ops @ [DispatchOp FloatEvent ''2.34f'']) =
          Inr (m, outs @ [out])" and
    n: "\<forall>h. count_list out (OnEvent h FloatEvent ''2.34f'') =
         (if capable example_store FloatEvent h
          then outstanding h (count_list (mObservers BaseEventManager) h) ?ops else 0)" and
    i: "\<forall>h. invocations h out =
         (if capable example_store FloatEvent h
          then outstanding h (count_list (mObservers BaseEventManager) h) ?ops else 0)"
    by (elim exE conjE) (rule that)
  have o: "outstanding observer (count_list (mObservers BaseEventManager) observer) ?ops = 1"
    by (simp add: BaseEventManager_def observer_def)
  from n o have c1: "count_list out (OnEvent observer FloatEvent ''2.34f'') = 1"
    by (simp add: example_capable)
  from i o have i1: "invocations observer out = 1"
    by (simp add: example_capable)
  from i have i2: "invocations 2 out = 0"
    by (simp add: example_capable)
  show ?thesis
    by (intro exI conjI) (rule r c1 i1 i2)+
qed

text \<open>
  Claim C1 as stated asks for exactly one invocation of every subscribed capable
  handler. \<^verbatim>\<open>Subscribe\<close> does not deduplicate, and a handler subscribed twice is invoked
  twice by one \<^verbatim>\<open>Dispatch\<close> call.
\<close>

theorem Dispatch_twice_when_subscribed_twice:
  "run example_store BaseEventManager
     [SubscribeOp observer, SubscribeOp observer, DispatchOp IntEvent ''1''] =
     Inr (\<lparr>mObservers = [observer, observer]\<rparr>,
          [[OnEvent observer IntEvent ''1'', OnEvent observer IntEvent ''1'']]) \<and>
   capable example_store IntEvent observer \<and>
   observer \<in> set (mObservers \<lparr>mObservers = [observer, observer]\<rparr>) \<and>
   invocations observer [OnEvent observer IntEvent ''1'', OnEvent observer IntEvent ''1''] = 2"
proof -
  have "live example_store (mObservers \<lparr>mObservers = [observer, observer]\<rparr>)"
    using example_live by (simp add: live_def)
  then show ?thesis
    by (simp add: Dispatch_live example_capable invocations_def
        Subscribe_def push_back_def BaseEventManager_def)
qed

text \<open>
  Claim C5. A subscribed handler whose class declares exactly \<open>T1\<close> and \<open>T2\<close> is
  invoked by \<^verbatim>\<open>Dispatch\<close> of a \<open>T1\<close> event and of a \<open>T2\<close> event (once per stored copy of
  its handle) and is not invoked by \<^verbatim>\<open>Dispatch\<close> of any type \<open>T3\<close> with another name,
  whatever the members of \<open>T3\<close> are: matching is by the identity of the type, not
  by its structure.
\<close>

theorem multi_capability_isolation:
  assumes "live objs (mObservers m)" and "h \<in> set (mObservers m)"
    and "h \<noteq> nullptr" and "objs h = Some (Observer [T1, T2])"
    and "type_name T3 \<noteq> type_name T1" and "type_name T3 \<noteq> type_name T2"
  shows "\<exists>out1 out2 out3.
      Dispatch objs m T1 e1 = Inr (m, out1) \<and>
      Dispatch objs m T2 e2 = Inr (m, out2) \<and>
      Dispatch objs m T3 e3 = Inr (m, out3) \<and>
      OnEvent h T1 e1 \<in> set out1 \<and> invocations h out1 = count_list (mObservers m) h \<and>
      OnEvent h T2 e2 \<in> set out2 \<and> invocations h out2 = count_list (mObservers m) h \<and>
      invocations h out3 = 0"
proof -
  from assms have c: "capable objs T1 h" "capable objs T2 h" "\<not> capable objs T3 h"
    by (simp_all add: capable_def capability_set_def)
  with assms(1,2) show ?thesis
    by (simp add: Dispatch_live invocations_map_filter)
qed

text \<open>
  \<open>MyObserver\<close> of the example program with \<open>OtherIntEvent\<close>, which has the members of
  \<open>IntEvent\<close>.
\<close>

theorem multi_capability_isolation_witness:
  "members OtherIntEvent = members IntEvent \<and>
   (\<exists>out1 out2 out3.
      Dispatch example_store \<lparr>mObservers = [observer]\<rparr> IntEvent ''1'' =
        Inr (\<lparr>mObservers = [observer]\<rparr>, out1) \<and>
      Dispatch example_store \<lparr>mObservers = [observer]\<rparr> FloatEvent ''2.34f'' =
        Inr (\<lparr>mObservers = [observer]\<rparr>, out2) \<and>
      Dispatch example_store \<lparr>mObservers = [observer]\<rparr> OtherIntEvent ''1'' =
        Inr (\<lparr>mObservers = [observer]\<rparr>, out3) \<and>
      invocations observer out1 = 1 \<and> invocations observer out2 = 1 \<and>
      invocations observer out3 = 0)"
proof -
  let ?m = "\<lparr>mObservers = [observer]\<rparr>"
  have 1: "live example_store (mObservers ?m)"
    using example_live by (simp add: live_def)
  have 2: "observer \<in> set (mObservers ?m)" by simp
  have 3: "observer \<noteq> nullptr" by (simp add: observer_def nullptr_def)
  have 4: "example_store observer = Some (Observer [IntEvent, FloatEvent])"
    by (simp add: example_store_def MyObserver_def observer_def)
  have 5: "type_name OtherIntEvent \<noteq> type_name IntEvent"
    by (simp add: OtherIntEvent_def IntEvent_def)
  have 6: "type_name OtherIntEvent \<noteq> type_name FloatEvent"
    by (simp add: OtherIntEvent_def FloatEvent_def)
  have 7: "members OtherIntEvent = members IntEvent"
    by (simp add: OtherIntEvent_def IntEvent_def)
  from multi_capability_isolation [OF 1 2 3 4 5 6, of "''1''" "''2.34f''" "''1''"]
  have "\<exists>out1 out2 out3.
      Dispatch example_store ?m IntEvent ''1'' = Inr (?m, out1) \<and>
      Dispatch example_store ?m FloatEvent ''2.34f'' = Inr (?m, out2) \<and>
      Dispatch example_store ?m OtherIntEvent ''1'' = Inr (?m, out3) \<and>
      invocations observer out1 = 1 \<and> invocations observer out2 = 1 \<and>
      invocations observer out3 = 0"
    by auto
  with 7 show ?thesis by (rule conjI)
qed


section \<open>Order\<close>

lemma precedes_snoc: "precedes a b xs \<Longrightarrow> precedes a b (xs @ [p])"
proof -
  assume "precedes a b xs"
  then obtain l1 l2 l3 where "xs = l1 @ a # l2 @ b # l3"
    by (auto simp: precedes_def)
  then have "xs @ [p] = l1 @ a # l2 @ b # (l3 @ [p])" by simp
  then show ?thesis unfolding precedes_def by blast
qed

lemma member_precedes_snoc: "a \<in> set xs \<Longrightarrow> precedes a b (xs @ [b])"
proof -
  assume "a \<in> set xs"
  then obtain l1 l2 where "xs = l1 @ a # l2" by (auto dest: split_list)
  then have "xs @ [b] = l1 @ a # l2 @ b # []" by simp
  then show ?thesis unfolding precedes_def by blast
qed

lemma precedes_remove1:
  assumes "precedes a b xs" and "p \<noteq> a" and "p \<noteq> b"
  shows "precedes a b (remove1 p xs)"
proof -
  from assms(1) obtain l1 l2 l3 where xs: "xs = l1 @ a # l2 @ b # l3"
    by (auto simp: precedes_def)
  from assms(2,3) have
    "remove1 p xs =
       (if p \<in> set l1 then remove1 p l1 @ a # l2 @ b # l3
        else if p \<in> set l2 then l1 @ a # remove1 p l2 @ b # l3
        else l1 @ a # l2 @ b # remove1 p l3)"
    by (simp add: xs remove1_append)
  then show ?thesis unfolding precedes_def by (metis (full_types))
qed

lemma precedes_filter:
  assumes "precedes a b xs" and "P a" and "P b"
  shows "precedes a b (filter P xs)"
proof -
  from assms(1) obtain l1 l2 l3 where xs: "xs = l1 @ a # l2 @ b # l3"
    by (auto simp: precedes_def)
  with assms(2,3) have "filter P xs = filter P l1 @ a # filter P l2 @ b # filter P l3"
    by simp
  then show ?thesis unfolding precedes_def by blast
qed

lemma precedes_map: "precedes a b xs \<Longrightarrow> precedes (f a) (f b) (map f xs)"
proof -
  assume "precedes a b xs"
  then obtain l1 l2 l3 where "xs = l1 @ a # l2 @ b # l3"
    by (auto simp: precedes_def)
  then have "map f xs = map f l1 @ f a # map f l2 @ f b # map f l3" by simp
  then show ?thesis unfolding precedes_def by blast
qed

lemma run_keeps_member:
  "run objs m ops = Inr (m', outs) \<Longrightarrow> a \<in> set (mObservers m) \<Longrightarrow>
   a \<notin> set (unsubscribed_handles ops) \<Longrightarrow> a \<in> set (mObservers m')"
proof (induction objs m ops arbitrary: outs rule: run.induct)
  case (1 objs m)
  then show ?case by simp
next
  case (2 objs m p ops)
  then show ?case by (simp add: mObservers_Subscribe)
next
  case (3 objs m p ops)
  then show ?case by (simp add: mObservers_Unsubscribe)
next
  case (4 objs m T e ops)
  from "4.prems"(1) obtain m1 out outs' where
    d: "Dispatch objs m T e = Inr (m1, out)" and r: "run objs m1 ops = Inr (m', outs')"
    by (auto split: sum.splits prod.splits)
  from d have "m1 = m" by (rule Dispatch_same_manager)
  with "4.IH" [OF d refl r] "4.prems"(2,3) show ?case by simp
qed

lemma run_keeps_precedes:
  "run objs m ops = Inr (m', outs) \<Longrightarrow> precedes a b (mObservers m) \<Longrightarrow>
   a \<notin> set (unsubscribed_handles ops) \<Longrightarrow> b \<notin> set (unsubscribed_handles ops) \<Longrightarrow>
   precedes a b (mObservers m')"
proof (induction objs m ops arbitrary: outs rule: run.induct)
  case (1 objs m)
  then show ?case by simp
next
  case (2 objs m p ops)
  then show ?case by (simp add: mObservers_Subscribe precedes_snoc)
next
  case (3 objs m p ops)
  then show ?case by (simp add: mObservers_Unsubscribe precedes_remove1)
next
  case (4 objs m T e ops)
  from "4.prems"(1) obtain m1 out outs' where
    d: "Dispatch objs m T e = Inr (m1, out)" and r: "run objs m1 ops = Inr (m', outs')"
    by (auto split: sum.splits prod.splits)
  from d have "m1 = m" by (rule Dispatch_same_manager)
  with "4.IH" [OF d refl r] "4.prems"(2,3,4) show ?case by simp
qed

lemma run_append_Inr:
  "run objs m (ops1 @ ops2) = Inr (m', outs) \<Longrightarrow>
   \<exists>m1 o1 o2. run objs m ops1 = Inr (m1, o1) \<and> run objs m1 ops2 = Inr (m', o2)"
  by (auto simp: run_append split: sum.splits prod.splits)

text \<open>
  Claim C2. When \<open>A\<close> is subscribed, then \<open>B\<close>, and neither is unsubscribed afterwards
  (any other calls may come in between), a following \<^verbatim>\<open>Dispatch(T)\<close> for a type both
  are capable of invokes \<open>A\<close> before \<open>B\<close>. In general the call invokes exactly the
  capable entries of the whole collection, in the order of the collection, which
  is the order of subscription: the scan does not stop at the first match.
\<close>

theorem Dispatch_in_subscription_order:
  assumes "live objs (mObservers m)"
    and "live objs (subscribed_handles ops1)" and "live objs (subscribed_handles ops2)"
    and "capable objs T A" and "capable objs T B"
    and "A \<notin> set (unsubscribed_handles ops1)" and "A \<notin> set (unsubscribed_handles ops2)"
    and "B \<notin> set (unsubscribed_handles ops2)"
  shows "\<exists>m' outs out.
      run objs m (SubscribeOp A # ops1 @ SubscribeOp B # ops2 @ [DispatchOp T e]) =
        Inr (m', outs @ [out]) \<and>
      out = map (\<lambda>p. OnEvent p T e) (filter (capable objs T) (mObservers m')) \<and>
      (\<exists>l1 l2 l3. out = l1 @ OnEvent A T e # l2 @ OnEvent B T e # l3)"
proof -
  let ?ops = "SubscribeOp A # ops1 @ SubscribeOp B # ops2"
  let ?out = "\<lambda>m. map (\<lambda>p. OnEvent p T e) (filter (capable objs T) (mObservers m))"
  from assms(2-5) have "live objs (subscribed_handles ?ops)"
    by (simp add: subscribed_handles_append live_append live_Cons capable_live)
  from run_then_Dispatch [OF assms(1) this, of T e] obtain m' outs where
    r: "run objs m (?ops @ [DispatchOp T e]) = Inr (m', outs @ [?out m'])" and
    r0: "run objs m ?ops = Inr (m', outs)"
    by blast
  from r0 have "run objs (Subscribe m A) (ops1 @ SubscribeOp B # ops2) = Inr (m', outs)"
    by simp
  from run_append_Inr [OF this] obtain m1 o1 o2 where
    r1: "run objs (Subscribe m A) ops1 = Inr (m1, o1)" and
    r2: "run objs (Subscribe m1 B) ops2 = Inr (m', o2)"
    by auto
  have "A \<in> set (mObservers (Subscribe m A))"
    by (simp add: mObservers_Subscribe)
  from run_keeps_member [OF r1 this assms(6)] have "precedes A B (mObservers (Subscribe m1 B))"
    by (simp add: mObservers_Subscribe member_precedes_snoc)
  from run_keeps_precedes [OF r2 this assms(7,8)] have "precedes A B (mObservers m')" .
  from precedes_map [OF precedes_filter [OF this assms(4,5)], of "\<lambda>p. OnEvent p T e"]
  have "precedes (OnEvent A T e) (OnEvent B T e) (?out m')" .
  then have "\<exists>l1 l2 l3. ?out m' = l1 @ OnEvent A T e # l2 @ OnEvent B T e # l3"
    by (simp add: precedes_def)
  with r show ?thesis by simp
qed

theorem Dispatch_in_subscription_order_witness:
  "\<exists>m' outs l1 l2 l3.
      run example_store BaseEventManager
        (SubscribeOp observer # [SubscribeOp nullptr, DispatchOp DoubleEvent ''5.67'']
          @ SubscribeOp 2 # [UnsubscribeOp nullptr] @ [DispatchOp IntEvent ''1'']) =
        Inr (m', outs @ [l1 @ OnEvent observer IntEvent ''1'' # l2 @ OnEvent 2 IntEvent ''1'' # l3])"
proof -
  let ?ops1 = "[SubscribeOp nullptr, DispatchOp DoubleEvent ''5.67'']"
  let ?ops2 = "[UnsubscribeOp nullptr]"
  have 1: "live example_store (mObservers BaseEventManager)"
    by (simp add: BaseEventManager_def live_def)
  have 2: "live example_store (subscribed_handles ?ops1)"
    using example_live by (simp add: live_def)
  have 3: "live example_store (subscribed_handles ?ops2)"
    by (simp add: live_def)
  have 4: "observer \<notin> set (unsubscribed_handles ?ops1)" by simp
  have 5: "observer \<notin> set (unsubscribed_handles ?ops2)"
    by (simp add: observer_def nullptr_def)
  have 6: "2 \<notin> set (unsubscribed_handles ?ops2)"
    by (simp add: nullptr_def)
  from Dispatch_in_subscription_order
    [OF 1 2 3 example_capable(1) example_capable(5) 4 5 6, of "''1''"]
  obtain m' outs out l1 l2 l3 where
    "run example_store BaseEventManager
        (SubscribeOp observer # ?ops1 @ SubscribeOp 2 # ?ops2 @ [DispatchOp IntEvent ''1'']) =
        Inr (m', outs @ [out])"
    "out = l1 @ OnEvent observer IntEvent ''1'' # l2 @ OnEvent 2 IntEvent ''1'' # l3"
    by blast
  then have "run example_store BaseEventManager
        (SubscribeOp observer # ?ops1 @ SubscribeOp 2 # ?ops2 @ [DispatchOp IntEvent ''1'']) =
        Inr (m', outs @ [l1 @ OnEvent observer IntEvent ''1'' # l2 @ OnEvent 2 IntEvent ''1'' # l3])"
    by simp
  then show ?thesis by blast
qed

section \<open>Re-subscription\<close>

text \<open>
  Claim C6. A handle \<open>h\<close> that was not stored and is subscribed twice is invoked
  exactly twice by every following \<^verbatim>\<open>Dispatch\<close> of a type it is capable of; after one
  \<^verbatim>\<open>Unsubscribe(h)\<close> exactly once; after a second \<^verbatim>\<open>Unsubscribe(h)\<close> not at all. Calls
  that do not subscribe or unsubscribe \<open>h\<close> (dispatches, calls on other handles) may
  come in between and change nothing of this.
\<close>

theorem resubscription_invoked_per_copy:
  assumes "live objs (mObservers m)" and "h \<notin> set (mObservers m)" and "capable objs T h"
    and "live objs (subscribed_handles (ops1 @ ops2 @ ops3 @ ops4))"
    and "h \<notin> set (subscribed_handles (ops1 @ ops2 @ ops3 @ ops4))"
    and "h \<notin> set (unsubscribed_handles (ops1 @ ops2 @ ops3 @ ops4))"
  shows "(\<exists>m' outs out.
            run objs m (SubscribeOp h # ops1 @ SubscribeOp h # ops2 @ [DispatchOp T e]) =
              Inr (m', outs @ [out]) \<and>
            invocations h out = 2) \<and>
         (\<exists>m' outs out.
            run objs m (SubscribeOp h # ops1 @ SubscribeOp h # ops2 @
                        UnsubscribeOp h # ops3 @ [DispatchOp T e]) =
              Inr (m', outs @ [out]) \<and>
            invocations h out = 1) \<and>
         (\<exists>m' outs out.
            run objs m (SubscribeOp h # ops1 @ SubscribeOp h # ops2 @
                        UnsubscribeOp h # ops3 @ UnsubscribeOp h # ops4 @ [DispatchOp T e]) =
              Inr (m', outs @ [out]) \<and>
            invocations h out = 0)"
proof -
  let ?out = "\<lambda>m. map (\<lambda>p. OnEvent p T e) (filter (capable objs T) (mObservers m))"
  let ?a = "SubscribeOp h # ops1 @ SubscribeOp h # ops2"
  let ?b = "?a @ UnsubscribeOp h # ops3"
  let ?c = "?b @ UnsubscribeOp h # ops4"
  from assms(2) have z: "count_list (mObservers m) h = 0" by simp
  from assms(3) have lh: "h = nullptr \<or> objs h \<noteq> None" by (simp add: capable_live)
  from assms(4) lh have la: "live objs (subscribed_handles ?a)"
    and lb: "live objs (subscribed_handles ?b)" and lc: "live objs (subscribed_handles ?c)"
    by (simp_all add: subscribed_handles_append live_append live_Cons)
  from assms(5,6) have
    u: "\<And>n. outstanding h n ops1 = n" "\<And>n. outstanding h n ops2 = n"
       "\<And>n. outstanding h n ops3 = n" "\<And>n. outstanding h n ops4 = n"
    by (simp_all add: outstanding_untouched subscribed_handles_append
        unsubscribed_handles_append)
  have oa: "outstanding h 0 ?a = 2" and ob: "outstanding h 0 ?b = 1"
    and oc: "outstanding h 0 ?c = 0"
    by (simp_all add: outstanding_append u)
  from run_then_Dispatch [OF assms(1) la, of T e] obtain ma outsa where
    "run objs m (?a @ [DispatchOp T e]) = Inr (ma, outsa @ [?out ma])"
    "count_list (mObservers ma) h = outstanding h (count_list (mObservers m) h) ?a"
    by blast
  with assms(3) z oa have A: "\<exists>m' outs out.
      run objs m (?a @ [DispatchOp T e]) = Inr (m', outs @ [out]) \<and> invocations h out = 2"
    by (metis invocations_map_filter)
  from run_then_Dispatch [OF assms(1) lb, of T e] obtain mb outsb where
    "run objs m (?b @ [DispatchOp T e]) = Inr (mb, outsb @ [?out mb])"
    "count_list (mObservers mb) h = outstanding h (count_list (mObservers m) h) ?b"
    by blast
  with assms(3) z ob have B: "\<exists>m' outs out.
      run objs m (?b @ [DispatchOp T e]) = Inr (m', outs @ [out]) \<and> invocations h out = 1"
    by (metis invocations_map_filter)
  from run_then_Dispatch [OF assms(1) lc, of T e] obtain mc outsc where
    "run objs m (?c @ [DispatchOp T e]) = Inr (mc, outsc @ [?out mc])"
    "count_list (mObservers mc) h = outstanding h (count_list (mObservers m) h) ?c"
    by blast
  with assms(3) z oc have C: "\<exists>m' outs out.
      run objs m (?c @ [DispatchOp T e]) = Inr (m', outs @ [out]) \<and> invocations h out = 0"
    by (metis invocations_map_filter)
  from A B C show ?thesis by simp
qed


theorem resubscription_invoked_per_copy_witness:
  "(\<exists>m' outs out.
      run example_store BaseEventManager
        (SubscribeOp observer # [SubscribeOp 2] @ SubscribeOp observer #
         [DispatchOp FloatEvent ''2.34f''] @ [DispatchOp IntEvent ''1'']) =
        Inr (m', outs @ [out]) \<and>
      invocations observer out = 2) \<and>
   (\<exists>m' outs out.
      run example_store BaseEventManager
        (SubscribeOp observer # [SubscribeOp 2] @ SubscribeOp observer #
         [DispatchOp FloatEvent ''2.34f''] @ UnsubscribeOp observer # [UnsubscribeOp 2] @
         [DispatchOp IntEvent ''1'']) =
        Inr (m', outs @ [out]) \<and>
      invocations observer out = 1) \<and>
   (\<exists>m' outs out.
      run example_store BaseEventManager
        (SubscribeOp observer # [SubscribeOp 2] @ SubscribeOp observer #
         [DispatchOp FloatEvent ''2.34f''] @ UnsubscribeOp observer # [UnsubscribeOp 2] @
         UnsubscribeOp observer # [] @ [DispatchOp IntEvent ''1'']) =
        Inr (m', outs @ [out]) \<and>
      invocations observer out = 0)"
proof -
  let ?ops1 = "[SubscribeOp 2]"
  let ?ops2 = "[DispatchOp FloatEvent ''2.34f'']"
  let ?ops3 = "[UnsubscribeOp 2]"
  let ?ops4 = "[]"
  have 1: "live example_store (mObservers BaseEventManager)"
    by (simp add: BaseEventManager_def live_def)
  have 2: "observer \<notin> set (mObservers BaseEventManager)"
    by (simp add: BaseEventManager_def)
  have 3: "live example_store (subscribed_handles (?ops1 @ ?ops2 @ ?ops3 @ ?ops4))"
    using example_live by (simp add: live_def)
  have 4: "observer \<notin> set (subscribed_handles (?ops1 @ ?ops2 @ ?ops3 @ ?ops4))"
    by (simp add: observer_def)
  have 5: "observer \<notin> set (unsubscribed_handles (?ops1 @ ?ops2 @ ?ops3 @ ?ops4))"
    by (simp add: observer_def)
  show ?thesis
    by (rule resubscription_invoked_per_copy [OF 1 2 example_capable(1) 3 4 5, of "''1''"])
qed

section \<open>The forwarding overload\<close>

lemma Dispatch_rvalue_returns_not_lvalue:
  assumes ret: "Dispatch_rvalue objs m T v = Some r"
  shows "\<not> (is_lvalue_ref T \<and> \<not> const_qualified T)"
proof (rule Dispatch_rvalue.raw_induct
    [where P = "\<lambda>objs m T v r. \<not> (is_lvalue_ref T \<and> \<not> const_qualified T)", OF _ ret])
  fix f :: "store \<Rightarrow> manager \<Rightarrow> template_arg \<Rightarrow> 'a \<Rightarrow> (fault + manager \<times> 'a call list) option"
  fix objs m T event r
  assume IH: "\<And>objs m T event r.
      f objs m T event = Some r \<Longrightarrow> \<not> (is_lvalue_ref T \<and> \<not> const_qualified T)"
  assume step: "(case overload_resolution (cast_const_T_ref T event) of
       Dispatch_const_ref U \<Rightarrow> Some (Dispatch objs m U (val (cast_const_T_ref T event)))
     | Dispatch_forwarding T' \<Rightarrow> f objs m T' (val (cast_const_T_ref T event))) = Some r"
  show "\<not> (is_lvalue_ref T \<and> \<not> const_qualified T)"
  proof
    assume "is_lvalue_ref T \<and> \<not> const_qualified T"
    then have T: "T = TArg True False (referred T)"
      by (cases T) simp
    have "cast_const_T_ref T event = Expr Lvalue False (referred T) event"
      by (subst T) simp
    with step have "f objs m (TArg True False (referred T)) event = Some r"
      by simp
    from IH [OF this] show False by simp
  qed
qed

lemma Dispatch_rvalue_lvalue_ref:
  "Dispatch_rvalue objs m (TArg True False U) v = None"
proof (cases "Dispatch_rvalue objs m (TArg True False U) v")
  case None
  then show ?thesis .
next
  case (Some r)
  from Dispatch_rvalue_returns_not_lvalue [OF this] show ?thesis by simp
qed

lemma Dispatch_rvalue_non_ref:
  "Dispatch_rvalue objs m (TArg False c U) v = Some (Dispatch objs m U v)"
  by (subst Dispatch_rvalue.simps) simp

lemma Dispatch_rvalue_const_lvalue_ref:
  "Dispatch_rvalue objs m (TArg True True U) v = Some (Dispatch objs m U v)"
  by (subst Dispatch_rvalue.simps) simp

lemma Dispatch_call_rvalue:
  "Dispatch_call objs m (Expr Rvalue c U v) = Some (Dispatch objs m U v)"
  by (simp add: Dispatch_call_def Dispatch_rvalue_non_ref)

lemma Dispatch_call_const_lvalue:
  "Dispatch_call objs m (Expr Lvalue True U v) = Some (Dispatch objs m U v)"
  by (simp add: Dispatch_call_def)

lemma Dispatch_call_lvalue:
  "Dispatch_call objs m (Expr Lvalue False U v) = None"
  by (simp add: Dispatch_call_def Dispatch_rvalue_lvalue_ref)

text \<open>
  The calls of \<^verbatim>\<open>main\<close> in the example program pass temporaries: the first two events
  are dispatched to \<open>observer\<close>, the \<open>DoubleEvent\<close> is not, and \<^verbatim>\<open>Unsubscribe\<close> empties
  the manager again.
\<close>

lemma example_main:
  "Dispatch_call example_store (Subscribe BaseEventManager observer)
     (Expr Rvalue False IntEvent ''1'') =
     Some (Inr (Subscribe BaseEventManager observer, [OnEvent observer IntEvent ''1'']))"
  "Dispatch_call example_store (Subscribe BaseEventManager observer)
     (Expr Rvalue False FloatEvent ''2.34f'') =
     Some (Inr (Subscribe BaseEventManager observer, [OnEvent observer FloatEvent ''2.34f'']))"
  "Dispatch_call example_store (Subscribe BaseEventManager observer)
     (Expr Rvalue False DoubleEvent ''5.67'') =
     Some (Inr (Subscribe BaseEventManager observer, []))"
  "Unsubscribe (Subscribe BaseEventManager observer) observer = BaseEventManager"
proof -
  have "live example_store (mObservers (Subscribe BaseEventManager observer))"
    using example_live by (simp add: live_def mObservers_Subscribe BaseEventManager_def)
  then show
    "Dispatch_call example_store (Subscribe BaseEventManager observer)
       (Expr Rvalue False IntEvent ''1'') =
       Some (Inr (Subscribe BaseEventManager observer, [OnEvent observer IntEvent ''1'']))"
    "Dispatch_call example_store (Subscribe BaseEventManager observer)
       (Expr Rvalue False FloatEvent ''2.34f'') =
       Some (Inr (Subscribe BaseEventManager observer, [OnEvent observer FloatEvent ''2.34f'']))"
    "Dispatch_call example_store (Subscribe BaseEventManager observer)
       (Expr Rvalue False DoubleEvent ''5.67'') =
       Some (Inr (Subscribe BaseEventManager observer, []))"
    by (simp_all add: Dispatch_call_rvalue Dispatch_live example_capable mObservers_Subscribe
        BaseEventManager_def)
  show "Unsubscribe (Subscribe BaseEventManager observer) observer = BaseEventManager"
    by (simp add: manager_eq_iff mObservers_Unsubscribe mObservers_Subscribe
        BaseEventManager_def)
qed

text \<open>
  Claim C10. \<^verbatim>\<open>Dispatch(T&&)\<close> is documented as the r-value version of
  \<^verbatim>\<open>Dispatch(const T&)\<close>. For an rvalue argument it makes the invocations of
  \<^verbatim>\<open>Dispatch(const T&)\<close> (\<open>Dispatch_call_rvalue\<close>). For a non-const lvalue argument, as
  in \<^verbatim>\<open>IntEvent e{1}; manager.Dispatch(e);\<close>, overload resolution selects
  \<^verbatim>\<open>Dispatch(T&&)\<close> with \<^verbatim>\<open>T = IntEvent&\<close>, the cast in its body leaves the argument a
  non-const lvalue, and the call in its body selects the same overload again: the
  call never returns and invokes no handler, where \<^verbatim>\<open>Dispatch(const T&)\<close> on the same
  manager and event invokes the subscribed observer.
\<close>

theorem Dispatch_rvalue_never_returns_for_lvalue:
  "Dispatch_call example_store \<lparr>mObservers = [observer]\<rparr> (Expr Lvalue False IntEvent ''1'') = None \<and>
   Dispatch_rvalue example_store \<lparr>mObservers = [observer]\<rparr> (TArg True False IntEvent) ''1'' = None \<and>
   Dispatch example_store \<lparr>mObservers = [observer]\<rparr> IntEvent ''1'' =
     Inr (\<lparr>mObservers = [observer]\<rparr>, [OnEvent observer IntEvent ''1''])"
proof -
  have "live example_store (mObservers \<lparr>mObservers = [observer]\<rparr>)"
    using example_live by (simp add: live_def)
  then show ?thesis
    by (simp add: Dispatch_call_lvalue Dispatch_rvalue_lvalue_ref Dispatch_live example_capable)
qed

end
